theory Spec2Isabelle
  imports Complex_Main "HOL-Library.Word"
begin

section \<open>Machine types and outcomes\<close>

text \<open>
  The programs are C++ on a 64-bit Linux target: \<^verbatim>\<open>std::uint64_t\<close> (\<^verbatim>\<open>u64\<close>) is a 64-bit word
  whose arithmetic wraps, \<^verbatim>\<open>unsigned\<close> is a 32-bit word whose arithmetic wraps, and \<^verbatim>\<open>int\<close>
  is a 32-bit two's complement value. An \<^verbatim>\<open>int\<close> that is only compared and decremented
  (the argument \<^verbatim>\<open>n\<close> of the recursive workload) is a HOL \<open>int\<close>; an \<^verbatim>\<open>int\<close> that
  accumulates a sum is a 32-bit word read with \<open>sint\<close>. A \<^verbatim>\<open>double\<close> is idealised as a
  \<open>real\<close>: rounding is not modelled.
\<close>

type_synonym u64 = "64 word"
type_synonym u32 = "32 word"
type_synonym i32 = "32 word"

text \<open>
  What a call does: it returns a value, it ends the process through the \<^verbatim>\<open>die\<close> macro
  (a diagnostic on the error stream, then \<^verbatim>\<open>std::exit(EXIT_FAILURE)\<close>), or it has no
  defined behaviour in C++ (an index out of range, the end iterator dereferenced, a
  division by zero).
\<close>

datatype 'a outcome = Returns 'a | Dies string | Undefined

section \<open>recursive-fib.cpp: the recursive workload\<close>

text \<open>
  \<^verbatim>\<open>u64 parallel_fib(int n)\<close>: \<^verbatim>\<open>return n\<close> converts the \<^verbatim>\<open>int\<close> to \<^verbatim>\<open>u64\<close>;
  \<^verbatim>\<open>parallel_invoke\<close> runs both closures and returns when both are done, so \<^verbatim>\<open>x\<close> and \<^verbatim>\<open>y\<close>
  hold the two results; \<^verbatim>\<open>x + y\<close> is an addition of \<^verbatim>\<open>u64\<close>.
\<close>

function parallel_fib :: "int \<Rightarrow> u64" where
  "parallel_fib n =
     (if n < 2 then word_of_int n
      else (let x = parallel_fib (n - 1); y = parallel_fib (n - 2) in x + y))"
  by pat_completeness auto
termination
  by (relation "measure nat") auto

text \<open>\<^verbatim>\<open>u64 threads_created(int n)\<close>: the jobs metric of the output line.\<close>

function threads_created :: "int \<Rightarrow> u64" where
  "threads_created n =
     (if n < 2 then 0
      else 2 + threads_created (n - 1) + threads_created (n - 2))"
  by pat_completeness auto
termination
  by (relation "measure nat") auto

text \<open>
  The standard Fibonacci sequence over the natural numbers, the reference the workload
  is compared with, and an accumulating form of it that evaluates in linear time.
\<close>

fun fib_std :: "nat \<Rightarrow> nat" where
  "fib_std 0 = 0"
| "fib_std (Suc 0) = 1"
| "fib_std (Suc (Suc k)) = fib_std (Suc k) + fib_std k"

primrec fib_acc :: "nat \<Rightarrow> nat \<Rightarrow> nat \<Rightarrow> nat" where
  "fib_acc 0 a b = a"
| "fib_acc (Suc k) a b = fib_acc k b (a + b)"

section \<open>recursive-fib.cpp: the load-balance tracker\<close>

text \<open>
  \<^verbatim>\<open>struct load_balance { int allowed; std::vector<u64> tbb; }\<close>. The constructor
  \<^verbatim>\<open>load_balance(int allowed, int slots)\<close> fills \<^verbatim>\<open>tbb\<close> with \<^verbatim>\<open>slots\<close> zeros; \<^verbatim>\<open>main\<close>
  passes \<^verbatim>\<open>max_concurrency()\<close>, which is positive.
\<close>

record load_balance =
  allowed :: int
  tbb :: "u64 list"

definition new_load_balance :: "int \<Rightarrow> int \<Rightarrow> load_balance" where
  "new_load_balance a slots = \<lparr>allowed = a, tbb = replicate (nat slots) 0\<rparr>"

text \<open>
  \<^verbatim>\<open>take_measurement\<close> increments \<^verbatim>\<open>tbb[current_thread_index()]\<close>. The index is the
  scheduler's answer, an \<^verbatim>\<open>int\<close> given here as the argument \<open>idx\<close>;
  \<^verbatim>\<open>operator[]\<close> outside the vector has no defined behaviour.
\<close>

definition take_measurement :: "int \<Rightarrow> load_balance \<Rightarrow> load_balance outcome" where
  "take_measurement idx lb =
     (if 0 \<le> idx \<and> nat idx < length (tbb lb)
      then Returns (lb\<lparr>tbb := (tbb lb)[nat idx := tbb lb ! nat idx + 1]\<rparr>)
      else Undefined)"

text \<open>
  \<^verbatim>\<open>u64 parallel_fib_lb(int n, load_balance& lb)\<close>. Every invocation is named by its path
  in the call tree (\<open>False\<close> for the first closure, \<open>True\<close> for the second), and
  \<open>sched\<close> gives the slot index that \<^verbatim>\<open>current_thread_index()\<close> returns in that
  invocation: the scheduler is free to choose it. A slot is held by one thread at a time,
  so the increments of one counter do not overlap, and increments of the counters commute:
  the tracker after the run is the one obtained by running the first closure and then the
  second.
\<close>

function parallel_fib_lb ::
  "(bool list \<Rightarrow> int) \<Rightarrow> bool list \<Rightarrow> int \<Rightarrow> load_balance \<Rightarrow> (u64 \<times> load_balance) outcome"
where
  "parallel_fib_lb sched p n lb =
     (if n < 2 then Returns (word_of_int n, lb)
      else
        (case take_measurement (sched p) lb of
           Returns lb1 \<Rightarrow>
             (case parallel_fib_lb sched (p @ [False]) (n - 1) lb1 of
                Returns (x, lb2) \<Rightarrow>
                  (case parallel_fib_lb sched (p @ [True]) (n - 2) lb2 of
                     Returns (y, lb3) \<Rightarrow> Returns (x + y, lb3)
                   | Dies msg \<Rightarrow> Dies msg
                   | Undefined \<Rightarrow> Undefined)
              | Dies msg \<Rightarrow> Dies msg
              | Undefined \<Rightarrow> Undefined)
         | Dies msg \<Rightarrow> Dies msg
         | Undefined \<Rightarrow> Undefined))"
  by pat_completeness auto
termination
  by (relation "measure (\<lambda>(sched, p, n, lb). nat n)") auto

text \<open>A schedule in which the calling thread, in slot 0, runs every invocation.\<close>

definition sched_slot0 :: "bool list \<Rightarrow> int" where
  "sched_slot0 p = 0"

text \<open>The sum of the slot counters, as a natural number.\<close>

definition counter_total :: "load_balance \<Rightarrow> nat" where
  "counter_total lb = sum_list (map unat (tbb lb))"

section \<open>recursive-fib.cpp: statistics of the tracker\<close>

text \<open>\<^verbatim>\<open>struct statistics { std::uint64_t min, max; double avg, dev; }\<close>\<close>

record statistics =
  min_stat :: u64
  max_stat :: u64
  avg :: real
  dev :: real

text \<open>
  \<^verbatim>\<open>std::min_element\<close> and \<^verbatim>\<open>std::max_element\<close> over the whole vector: the element the
  returned iterator points to, \<open>None\<close> for the end iterator of an empty vector.
\<close>

fun min_element :: "u64 list \<Rightarrow> u64 option" where
  "min_element [] = None"
| "min_element (x # xs) = Some (foldl (\<lambda>smallest y. if y < smallest then y else smallest) x xs)"

fun max_element :: "u64 list \<Rightarrow> u64 option" where
  "max_element [] = None"
| "max_element (x # xs) = Some (foldl (\<lambda>largest y. if largest < y then y else largest) x xs)"

text \<open>
  \<^verbatim>\<open>std::accumulate(v.begin(), v.end(), 0)\<close>: the initial value \<^verbatim>\<open>0\<close> is an \<^verbatim>\<open>int\<close>, so
  the accumulator is an \<^verbatim>\<open>int\<close>. Each step computes \<^verbatim>\<open>acc + x\<close> in \<^verbatim>\<open>u64\<close> (the \<^verbatim>\<open>int\<close>
  is sign-extended) and stores the low 32 bits back into the accumulator.
\<close>

definition accumulate_int :: "u64 list \<Rightarrow> i32" where
  "accumulate_int v = foldl (\<lambda>acc x. ucast ((scast acc :: u64) + x)) 0 v"

text \<open>The closure \<^verbatim>\<open>dev_lambda\<close>, which holds a copy of \<^verbatim>\<open>res\<close> with \<^verbatim>\<open>avg\<close> set.\<close>

definition dev_lambda :: "real \<Rightarrow> real \<Rightarrow> u64 \<Rightarrow> real" where
  "dev_lambda res_avg acc x = (let delta = real (unat x) - res_avg in acc + delta * delta)"

text \<open>
  \<^verbatim>\<open>statistics calc_statistics(const std::vector<u64>& v)\<close>. On an empty vector
  \<^verbatim>\<open>*std::min_element(...)\<close> dereferences the end iterator.
\<close>

definition calc_statistics :: "u64 list \<Rightarrow> statistics outcome" where
  "calc_statistics v =
     (case (min_element v, max_element v) of
        (Some mn, Some mx) \<Rightarrow>
          (let count = real (length v);
               a = real_of_int (sint (accumulate_int v)) / count;
               d = sqrt (foldl (dev_lambda a) 0 v / count)
           in Returns \<lparr>min_stat = mn, max_stat = mx, avg = a, dev = d\<rparr>)
      | _ \<Rightarrow> Undefined)"

text \<open>
  \<^verbatim>\<open>operator<<(std::ostream&, const load_balance&)\<close>. \<^verbatim>\<open>std::remove_copy\<close> appends to
  \<^verbatim>\<open>v\<close> the elements that differ from the value; \<^verbatim>\<open>std::fill_n\<close> appends the value
  \<open>n\<close> times and does nothing when \<open>n\<close> is not positive. \<open>lb_sample\<close> is
  the vector \<^verbatim>\<open>v\<close> handed to \<^verbatim>\<open>calc_statistics\<close>; the fields written to the stream are
  \<^verbatim>\<open>min\<close>, \<^verbatim>\<open>dev\<close> and \<^verbatim>\<open>max\<close>.
\<close>

definition remove_copy :: "u64 list \<Rightarrow> u64 \<Rightarrow> u64 list" where
  "remove_copy xs val = filter (\<lambda>x. x \<noteq> val) xs"

definition fill_n :: "u64 list \<Rightarrow> int \<Rightarrow> u64 \<Rightarrow> u64 list" where
  "fill_n v n val = v @ replicate (nat n) val"

definition lb_sample :: "load_balance \<Rightarrow> u64 list" where
  "lb_sample lb =
     (let v = remove_copy (tbb lb) 0
      in fill_n v (allowed lb - int (length v)) 0)"

definition print_load_balance :: "load_balance \<Rightarrow> (u64 \<times> real \<times> u64) outcome" where
  "print_load_balance lb =
     (case calc_statistics (lb_sample lb) of
        Returns stats \<Rightarrow> Returns (min_stat stats, dev stats, max_stat stats)
      | Dies msg \<Rightarrow> Dies msg
      | Undefined \<Rightarrow> Undefined)"

section \<open>recursive-fib.cpp: the pinning observer\<close>

text \<open>
  \<^verbatim>\<open>class pinning_observer { const unsigned nprocs; std::atomic<unsigned> counter; }\<close>.
  The constructor stores \<^verbatim>\<open>get_nprocs()\<close> and sets the counter to 0.
\<close>

record pinning_observer =
  nprocs :: u32
  counter :: u32

definition new_pinning_observer :: "u32 \<Rightarrow> pinning_observer" where
  "new_pinning_observer n = \<lparr>nprocs = n, counter = 0\<rparr>"

text \<open>
  \<^verbatim>\<open>on_scheduler_entry\<close>, called once per join event; its argument \<^verbatim>\<open>is_worker\<close> is not
  read. \<^verbatim>\<open>counter++ % nprocs\<close> is the one bit set in the mask, the hardware unit the
  thread is pinned to; the atomic post-increment orders the join events. The argument
  \<open>setaffinity_ok\<close> says whether \<^verbatim>\<open>sched_setaffinity\<close> returned 0; when it did not,
  the process dies with a diagnostic that starts with the text below. The call returns
  the unit and the observer after the increment.
\<close>

definition on_scheduler_entry :: "bool \<Rightarrow> pinning_observer \<Rightarrow> (nat \<times> pinning_observer) outcome" where
  "on_scheduler_entry setaffinity_ok po =
     (if nprocs po = 0 then Undefined
      else
        (let cpu = counter po mod nprocs po;
             po1 = po\<lparr>counter := counter po + 1\<rparr>
         in if setaffinity_ok then Returns (unat cpu, po1)
            else Dies ''sched_setaffinity: ''))"

text \<open>The observer after \<open>k\<close> join events whose affinity calls all succeeded.\<close>

primrec after_joins :: "nat \<Rightarrow> pinning_observer \<Rightarrow> pinning_observer outcome" where
  "after_joins 0 po = Returns po"
| "after_joins (Suc k) po =
     (case after_joins k po of
        Returns po1 \<Rightarrow>
          (case on_scheduler_entry True po1 of
             Returns (cpu, po2) \<Rightarrow> Returns po2
           | Dies msg \<Rightarrow> Dies msg
           | Undefined \<Rightarrow> Undefined)
      | Dies msg \<Rightarrow> Dies msg
      | Undefined \<Rightarrow> Undefined)"

text \<open>The hardware unit given to join event number \<open>k\<close>, counted from 0.\<close>

definition kth_join_unit :: "nat \<Rightarrow> pinning_observer \<Rightarrow> nat outcome" where
  "kth_join_unit k po =
     (case after_joins k po of
        Returns po1 \<Rightarrow>
          (case on_scheduler_entry True po1 of
             Returns (cpu, po2) \<Rightarrow> Returns cpu
           | Dies msg \<Rightarrow> Dies msg
           | Undefined \<Rightarrow> Undefined)
      | Dies msg \<Rightarrow> Dies msg
      | Undefined \<Rightarrow> Undefined)"

section \<open>The read loops of the two drivers\<close>

text \<open>
  A driver reads records with \<^verbatim>\<open>std::cin >> ...\<close> until the extraction fails. The loops
  are modelled over the list of the records extracted, each field a value of its C++
  type, and return what the loop writes: a result line on the output stream or a
  diagnostic on the error stream. The fields of a line that depend on the clock or on the
  scheduler (elapsed time, throughput, the load-balance summary) are left out of it; the
  jobs field is the \<^verbatim>\<open>u64\<close> that the code converts to \<^verbatim>\<open>double\<close> before writing it.
\<close>

datatype 'l event = Line 'l | Diag string

text \<open>
  \<^verbatim>\<open>main\<close> of recursive-fib.cpp: \<^verbatim>\<open>while (std::cin >> fib_num >> nthread)\<close> with
  \<^verbatim>\<open>int fib_num\<close> and \<^verbatim>\<open>unsigned nthread\<close>; the body runs \<^verbatim>\<open>tests\<close> repetitions, each
  writing one line.
\<close>

record fib_line =
  line_n :: int
  line_fib :: u64
  line_nthread :: u32
  line_jobs :: u64

fun fib_read_loop :: "int \<Rightarrow> (int \<times> u32) list \<Rightarrow> fib_line event list" where
  "fib_read_loop tests [] = []"
| "fib_read_loop tests ((fib_num, nthread) # rest) =
     replicate (nat tests)
       (Line \<lparr>line_n = fib_num, line_fib = parallel_fib fib_num,
              line_nthread = nthread, line_jobs = threads_created fib_num\<rparr>)
     @ fib_read_loop tests rest"

text \<open>
  \<^verbatim>\<open>main\<close> of noploop.cpp: \<^verbatim>\<open>while (std::cin >> method >> threads >> iterations)\<close> with
  \<^verbatim>\<open>int method\<close>, \<^verbatim>\<open>int threads\<close> and \<^verbatim>\<open>u64 iterations\<close>; a record with fewer than two
  threads or an unknown method is reported and skipped with \<^verbatim>\<open>continue\<close>.
\<close>

record noploop_line =
  line_method :: int
  line_threads :: int
  line_iterations :: u64

fun noploop_read_loop :: "int \<Rightarrow> (int \<times> int \<times> u64) list \<Rightarrow> noploop_line event list" where
  "noploop_read_loop count [] = []"
| "noploop_read_loop count ((method, threads, iterations) # rest) =
     (if threads < 2 then Diag ''Threads must be < 2'' # noploop_read_loop count rest
      else if method \<notin> {0, 1, 2, 3}
        then Diag ''Method must be in {0, 1, 2, 3}'' # noploop_read_loop count rest
      else replicate (nat count)
             (Line \<lparr>line_method = method, line_threads = threads,
                    line_iterations = iterations\<rparr>)
           @ noploop_read_loop count rest)"

declare parallel_fib.simps [simp del]
declare threads_created.simps [simp del]
declare parallel_fib_lb.simps [simp del]

section \<open>The workload and the job count\<close>

lemma parallel_fib_base: "n < 2 \<Longrightarrow> parallel_fib n = word_of_int n"
  by (subst parallel_fib.simps) simp

lemma parallel_fib_step:
  "2 \<le> n \<Longrightarrow> parallel_fib n = parallel_fib (n - 1) + parallel_fib (n - 2)"
  by (subst parallel_fib.simps) (simp add: Let_def)

lemma threads_created_base: "n < 2 \<Longrightarrow> threads_created n = 0"
  by (subst threads_created.simps) simp

lemma threads_created_step:
  "2 \<le> n \<Longrightarrow> threads_created n = 2 + threads_created (n - 1) + threads_created (n - 2)"
  by (subst threads_created.simps) simp

text \<open>Evaluating the reference sequence.\<close>

lemma fib_acc_std: "fib_acc k (fib_std m) (fib_std (Suc m)) = fib_std (k + m)"
proof (induction k arbitrary: m)
  case 0
  show ?case by simp
next
  case (Suc k)
  have "fib_acc (Suc k) (fib_std m) (fib_std (Suc m)) =
        fib_acc k (fib_std (Suc m)) (fib_std (Suc (Suc m)))"
    by (simp add: add.commute)
  also have "\<dots> = fib_std (k + Suc m)"
    by (rule Suc.IH)
  finally show ?case by simp
qed

lemma fib_acc_numeral: "fib_acc (numeral k) a b = fib_acc (pred_numeral k) b (a + b)"
  by (simp add: numeral_eq_Suc)

lemma fib_std_small: "fib_std 2 = 1" "fib_std 3 = 2" "fib_std 4 = 3"
  by (simp_all add: numeral_eq_Suc)

lemma fib_std_from3: "fib_std (k + 3) = fib_acc k 2 3"
  using fib_acc_std [of k 3] fib_std_small by (simp add: eval_nat_numeral)

lemma fib_std_10: "fib_std 10 = 55"
  using fib_std_from3 [of 7] by (simp add: fib_acc_numeral)

lemma fib_std_92: "fib_std 92 = 7540113804746346429"
  using fib_std_from3 [of 89] by (simp add: fib_acc_numeral)

lemma fib_std_93: "fib_std 93 = 12200160415121876738"
  using fib_std_from3 [of 90] by (simp add: fib_acc_numeral)

lemma fib_std_94: "fib_std 94 = 19740274219868223167"
  using fib_std_from3 [of 91] by (simp add: fib_acc_numeral)

lemma fib_std_mono_Suc: "fib_std k \<le> fib_std (Suc k)"
  by (induction k rule: fib_std.induct) simp_all

lemma fib_std_mono: "j \<le> k \<Longrightarrow> fib_std j \<le> fib_std k"
  by (rule lift_Suc_mono_le [of fib_std]) (simp_all add: fib_std_mono_Suc)

lemma fib_std_pos: "0 < k \<Longrightarrow> 0 < fib_std k"
  using fib_std_mono [of 1 k] by simp

text \<open>The workload computes the reference sequence modulo \<open>2 ^ 64\<close>.\<close>

lemma parallel_fib_word:
  "0 \<le> n \<Longrightarrow> parallel_fib n = word_of_nat (fib_std (nat n))"
proof (induction n rule: parallel_fib.induct)
  case (1 n)
  show ?case
  proof (cases "n < 2")
    case True
    with "1.prems" have "n = 0 \<or> n = 1" by auto
    then show ?thesis by (auto simp: parallel_fib_base)
  next
    case False
    define k where "k = nat (n - 2)"
    from False have k: "nat n = Suc (Suc k)" "nat (n - 1) = Suc k" "nat (n - 2) = k"
      by (simp_all add: k_def nat_eq_iff)
    from False "1.IH" have "parallel_fib (n - 1) = word_of_nat (fib_std (Suc k))"
      "parallel_fib (n - 2) = word_of_nat (fib_std k)"
      using k by auto
    then show ?thesis using False k
      by (simp add: parallel_fib_step)
  qed
qed

lemma parallel_fib_unat:
  assumes "0 \<le> n" "n \<le> 93"
  shows "unat (parallel_fib n) = fib_std (nat n)"
proof -
  have "fib_std (nat n) \<le> fib_std 93"
    using assms by (intro fib_std_mono) simp
  then have "fib_std (nat n) < 2 ^ 64"
    by (simp add: fib_std_93)
  then show ?thesis
    using assms(1) by (simp add: parallel_fib_word unsigned_of_nat take_bit_nat_eq_self)
qed

lemma parallel_fib_94: "unat (parallel_fib 94) = 1293530146158671551"
proof -
  have "parallel_fib 94 = word_of_nat (fib_std (nat 94))"
    by (rule parallel_fib_word) simp
  then show ?thesis by (simp add: fib_std_94)
qed

lemma parallel_fib_0: "parallel_fib 0 = 0"
  by (simp add: parallel_fib_base)

lemma parallel_fib_1: "parallel_fib 1 = 1"
  by (simp add: parallel_fib_base)

lemma parallel_fib_2: "parallel_fib 2 = 1"
  by (simp add: parallel_fib_step parallel_fib_base)

lemma parallel_fib_10: "parallel_fib 10 = 55"
  using parallel_fib_word [of 10] by (simp add: fib_std_10)

lemma threads_created_fib:
  "0 \<le> n \<Longrightarrow> threads_created n = 2 * (parallel_fib (n + 1) - 1)"
proof (induction n rule: threads_created.induct)
  case (1 n)
  show ?case
  proof (cases "n < 2")
    case True
    with "1.prems" have "n = 0 \<or> n = 1" by auto
    then show ?thesis
      by (auto simp: threads_created_base parallel_fib_1 parallel_fib_2)
  next
    case False
    then have a: "threads_created (n - 1) = 2 * (parallel_fib n - 1)"
      using "1.IH"(1) by simp
    from False have b: "threads_created (n - 2) = 2 * (parallel_fib (n - 1) - 1)"
      using "1.IH"(2) by simp
    from False have c: "parallel_fib (n + 1) = parallel_fib n + parallel_fib (n - 1)"
      using parallel_fib_step [of "n + 1"] by simp
    from False have "threads_created n =
        2 + 2 * (parallel_fib n - 1) + 2 * (parallel_fib (n - 1) - 1)"
      by (simp add: threads_created_step a b)
    also have "\<dots> = 2 * (parallel_fib n + parallel_fib (n - 1) - 1)"
      by (simp add: algebra_simps)
    finally show ?thesis
      by (simp only: c)
  qed
qed

lemma threads_created_word:
  assumes "0 \<le> n"
  shows "threads_created n = word_of_nat (2 * (fib_std (nat n + 1) - 1))"
proof -
  have pos: "1 \<le> fib_std (nat n + 1)"
    using fib_std_pos [of "nat n + 1"] by simp
  have "parallel_fib (n + 1) = word_of_nat (fib_std (nat n + 1))"
    using assms parallel_fib_word [of "n + 1"] by (simp add: nat_add_distrib)
  then have "threads_created n = 2 * (word_of_nat (fib_std (nat n + 1)) - 1)"
    using assms by (simp add: threads_created_fib)
  also have "\<dots> = word_of_nat (2 * (fib_std (nat n + 1) - 1))"
    using pos by (simp add: of_nat_diff)
  finally show ?thesis .
qed

lemma threads_created_unat:
  assumes "0 \<le> n" "n \<le> 91"
  shows "unat (threads_created n) = 2 * (fib_std (nat n + 1) - 1)"
proof -
  have "fib_std (nat n + 1) \<le> fib_std 92"
    using assms by (intro fib_std_mono) simp
  then have "2 * (fib_std (nat n + 1) - 1) < 2 ^ LENGTH(64)"
    by (simp add: fib_std_92)
  with threads_created_word [OF assms(1), symmetric] show ?thesis
    by (rule of_nat_inverse)
qed

lemma threads_created_2: "threads_created 2 = 2"
  by (simp add: threads_created_step threads_created_base)

lemma threads_created_5: "threads_created 5 = 14"
  by (simp add: threads_created_step threads_created_base)

lemma threads_created_10: "threads_created 10 = 176"
  using threads_created_fib [of 10] parallel_fib_word [of 11] fib_std_from3 [of 8]
  by (simp add: fib_acc_numeral)

lemma threads_created_nat_step:
  assumes "2 \<le> n" "n \<le> 91"
  shows "unat (threads_created n) = 2 + unat (threads_created (n - 1)) + unat (threads_created (n - 2))"
proof -
  define k where "k = nat (n - 2)"
  from assms have k: "nat n + 1 = Suc (Suc (Suc k))" "nat (n - 1) + 1 = Suc (Suc k)" "nat (n - 2) + 1 = Suc k"
    by (simp_all add: k_def nat_eq_iff)
  have p1: "0 < fib_std (Suc k)"
    by (rule fib_std_pos) simp
  from assms have "unat (threads_created n) = 2 * (fib_std (nat n + 1) - 1)"
    "unat (threads_created (n - 1)) = 2 * (fib_std (nat (n - 1) + 1) - 1)"
    "unat (threads_created (n - 2)) = 2 * (fib_std (nat (n - 2) + 1) - 1)"
    by (simp_all add: threads_created_unat)
  then show ?thesis
    using p1 unfolding k by simp
qed

text \<open>
  Claim C2. \<^verbatim>\<open>threads_created\<close> is 0 below 2 and \<open>2 + threads_created (n - 1) +
  threads_created (n - 2)\<close> from 2 on, in the \<^verbatim>\<open>u64\<close> arithmetic of the code; up to
  \<open>n = 91\<close> no addition wraps, so the recurrence also holds for the values read as
  natural numbers. In particular the values at 0, 1, 2 and 5 are 0, 0, 2 and 14.
\<close>

theorem threads_created_recurrence:
  "(n < 2 \<longrightarrow> threads_created n = 0) \<and>
   (2 \<le> n \<longrightarrow> threads_created n = 2 + threads_created (n - 1) + threads_created (n - 2)) \<and>
   (2 \<le> n \<and> n \<le> 91 \<longrightarrow>
      unat (threads_created n) = 2 + unat (threads_created (n - 1)) + unat (threads_created (n - 2))) \<and>
   threads_created 0 = 0 \<and> threads_created 1 = 0 \<and>
   threads_created 2 = 2 \<and> threads_created 5 = 14"
  by (simp add: threads_created_base threads_created_step [symmetric] threads_created_nat_step
      threads_created_2 threads_created_5)

theorem threads_created_recurrence_witness:
  "threads_created (- 1) = 0 \<and>
   threads_created 10 = 2 + threads_created 9 + threads_created 8 \<and>
   unat (threads_created 10) = 2 + unat (threads_created 9) + unat (threads_created 8)"
proof -
  have a: "threads_created (- 1) = 0"
    using threads_created_recurrence [of "- 1"] by simp
  have "threads_created 10 = 2 + threads_created (10 - 1) + threads_created (10 - 2)"
    using threads_created_recurrence [of 10] by linarith
  then have b: "threads_created 10 = 2 + threads_created 9 + threads_created 8"
    by simp
  have "unat (threads_created 10) =
      2 + unat (threads_created (10 - 1)) + unat (threads_created (10 - 2))"
    using threads_created_recurrence [of 10] by linarith
  then have c: "unat (threads_created 10) =
      2 + unat (threads_created 9) + unat (threads_created 8)"
    by simp
  from a b c show ?thesis by blast
qed

text \<open>
  Claim C3, as stated, fails at \<open>n = 94\<close>: the 94th Fibonacci number does not fit
  in a \<^verbatim>\<open>u64\<close>, and the workload returns it modulo \<open>2 ^ 64\<close>.
\<close>

theorem parallel_fib_not_fibonacci_94: "unat (parallel_fib 94) \<noteq> fib_std 94"
  by (simp add: parallel_fib_94 fib_std_94)

text \<open>
  Claim C3, amended. \<^verbatim>\<open>parallel_fib n\<close> is \<open>n\<close> (converted to \<^verbatim>\<open>u64\<close>) below 2 and
  \<open>parallel_fib (n - 1) + parallel_fib (n - 2)\<close> from 2 on, in \<^verbatim>\<open>u64\<close> arithmetic. For
  \<open>n \<ge> 0\<close> it is the standard Fibonacci number modulo \<open>2 ^ 64\<close>, and for
  \<open>0 \<le> n \<le> 93\<close> it is the standard Fibonacci number itself. In particular the values
  at 0, 1 and 10 are 0, 1 and 55.
\<close>

theorem parallel_fib_fibonacci:
  "(n < 2 \<longrightarrow> parallel_fib n = word_of_int n) \<and>
   (2 \<le> n \<longrightarrow> parallel_fib n = parallel_fib (n - 1) + parallel_fib (n - 2)) \<and>
   (0 \<le> n \<longrightarrow> parallel_fib n = word_of_nat (fib_std (nat n))) \<and>
   (0 \<le> n \<and> n \<le> 93 \<longrightarrow> unat (parallel_fib n) = fib_std (nat n)) \<and>
   parallel_fib 0 = 0 \<and> parallel_fib 1 = 1 \<and> parallel_fib 10 = 55"
  by (simp add: parallel_fib_base parallel_fib_step [symmetric] parallel_fib_word [symmetric]
      parallel_fib_unat parallel_fib_0 parallel_fib_1 parallel_fib_10)

theorem parallel_fib_fibonacci_witness:
  "parallel_fib 1 = word_of_int 1 \<and>
   parallel_fib 10 = parallel_fib 9 + parallel_fib 8 \<and>
   parallel_fib 10 = word_of_nat (fib_std (nat 10)) \<and>
   unat (parallel_fib 10) = fib_std (nat 10)"
proof -
  have a: "parallel_fib 1 = word_of_int 1"
    using parallel_fib_fibonacci [of 1] by linarith
  have "parallel_fib 10 = parallel_fib (10 - 1) + parallel_fib (10 - 2)"
    using parallel_fib_fibonacci [of 10] by linarith
  then have b: "parallel_fib 10 = parallel_fib 9 + parallel_fib 8"
    by simp
  have c: "parallel_fib 10 = word_of_nat (fib_std (nat 10))"
    using parallel_fib_fibonacci [of 10] by linarith
  have d: "unat (parallel_fib 10) = fib_std (nat 10)"
    using parallel_fib_fibonacci [of 10] by linarith
  from a b c d show ?thesis by blast
qed

lemma even_unat_double: "even (unat (2 * w :: u64))"
proof -
  have "unat (2 * w) = (2 * unat w) mod 2 ^ 64"
    by (simp add: unat_word_ariths)
  moreover have "(2::nat) dvd 2 ^ 64"
    by simp
  ultimately show ?thesis
    by (simp only: dvd_mod_iff dvd_triv_left)
qed

text \<open>
  Claim C10. For \<open>n \<ge> 0\<close> the job count is \<open>2 * (parallel_fib (n + 1) - 1)\<close>, in the
  \<^verbatim>\<open>u64\<close> arithmetic in which both functions compute, so it is even; up to \<open>n = 91\<close>
  nothing wraps and the equation also holds for the values read as natural numbers.
\<close>

theorem threads_created_closed_form:
  "0 \<le> n \<Longrightarrow>
     threads_created n = 2 * (parallel_fib (n + 1) - 1) \<and>
     even (unat (threads_created n)) \<and>
     (n \<le> 91 \<longrightarrow> unat (threads_created n) = 2 * (unat (parallel_fib (n + 1)) - 1))"
proof (intro conjI impI)
  assume n: "0 \<le> n"
  show eq: "threads_created n = 2 * (parallel_fib (n + 1) - 1)"
    using n by (rule threads_created_fib)
  show "even (unat (threads_created n))"
    unfolding eq by (rule even_unat_double)
  assume le: "n \<le> 91"
  have "unat (parallel_fib (n + 1)) = fib_std (nat (n + 1))"
    using n le by (intro parallel_fib_unat) simp_all
  then show "unat (threads_created n) = 2 * (unat (parallel_fib (n + 1)) - 1)"
    using n le by (simp add: threads_created_unat nat_add_distrib)
qed

theorem threads_created_closed_form_witness:
  "threads_created 5 = 2 * (parallel_fib (5 + 1) - 1) \<and>
   even (unat (threads_created 5)) \<and>
   unat (threads_created 5) = 2 * (unat (parallel_fib (5 + 1)) - 1)"
proof -
  have "(0::int) \<le> 5" and "(5::int) \<le> 91"
    by simp_all
  with threads_created_closed_form [of 5] show ?thesis
    by blast
qed

section \<open>The instrumented workload\<close>

lemma take_measurement_Returns:
  "take_measurement idx lb = Returns lb1 \<longleftrightarrow>
     0 \<le> idx \<and> nat idx < length (tbb lb) \<and>
     lb1 = lb\<lparr>tbb := (tbb lb)[nat idx := tbb lb ! nat idx + 1]\<rparr>"
  by (auto simp: take_measurement_def)

lemma take_measurement_not_Dies: "take_measurement idx lb \<noteq> Dies msg"
  by (simp add: take_measurement_def)

lemma take_measurement_valid:
  "0 \<le> idx \<Longrightarrow> idx < int (length (tbb lb)) \<Longrightarrow>
     take_measurement idx lb = Returns (lb\<lparr>tbb := (tbb lb)[nat idx := tbb lb ! nat idx + 1]\<rparr>)"
  by (simp add: take_measurement_def nat_less_iff)

lemma sum_list_bump_word:
  "i < length xs \<Longrightarrow> sum_list (xs[i := xs ! i + 1]) = sum_list xs + (1 :: u64)"
proof (induction xs arbitrary: i)
  case Nil
  then show ?case by simp
next
  case (Cons x xs)
  then show ?case by (cases i) simp_all
qed

lemma parallel_fib_lb_base:
  "n < 2 \<Longrightarrow> parallel_fib_lb sched p n lb = Returns (word_of_int n, lb)"
  by (subst parallel_fib_lb.simps) simp

lemma parallel_fib_lb_step:
  "2 \<le> n \<Longrightarrow> parallel_fib_lb sched p n lb =
     (case take_measurement (sched p) lb of
        Returns lb1 \<Rightarrow>
          (case parallel_fib_lb sched (p @ [False]) (n - 1) lb1 of
             Returns (x, lb2) \<Rightarrow>
               (case parallel_fib_lb sched (p @ [True]) (n - 2) lb2 of
                  Returns (y, lb3) \<Rightarrow> Returns (x + y, lb3)
                | Dies msg \<Rightarrow> Dies msg
                | Undefined \<Rightarrow> Undefined)
           | Dies msg \<Rightarrow> Dies msg
           | Undefined \<Rightarrow> Undefined)
      | Dies msg \<Rightarrow> Dies msg
      | Undefined \<Rightarrow> Undefined)"
  by (subst parallel_fib_lb.simps) simp

lemma parallel_fib_lb_not_Dies: "parallel_fib_lb sched p n lb \<noteq> Dies msg"
proof (induction sched p n lb rule: parallel_fib_lb.induct)
  case (1 sched p n lb)
  show ?case
  proof (cases "n < 2")
    case True
    then show ?thesis by (simp add: parallel_fib_lb_base)
  next
    case False
    then show ?thesis
      using "1.IH" take_measurement_not_Dies [of "sched p" lb]
      by (auto simp: parallel_fib_lb_step split: outcome.splits)
  qed
qed

lemma parallel_fib_lb_Returns:
  "parallel_fib_lb sched p n lb = Returns (r, lb') \<Longrightarrow>
     r = parallel_fib n \<and> length (tbb lb') = length (tbb lb) \<and> allowed lb' = allowed lb"
proof (induction sched p n lb arbitrary: r lb' rule: parallel_fib_lb.induct)
  case (1 sched p n lb)
  show ?case
  proof (cases "n < 2")
    case True
    with "1.prems" show ?thesis
      by (simp add: parallel_fib_lb_base parallel_fib_base)
  next
    case False
    from "1.prems" False obtain lb1 x lb2 y where
      tm: "take_measurement (sched p) lb = Returns lb1" and
      c1: "parallel_fib_lb sched (p @ [False]) (n - 1) lb1 = Returns (x, lb2)" and
      c2: "parallel_fib_lb sched (p @ [True]) (n - 2) lb2 = Returns (y, lb')" and
      r: "r = x + y"
      by (auto simp: parallel_fib_lb_step split: outcome.splits)
    from tm have l1: "length (tbb lb1) = length (tbb lb)" "allowed lb1 = allowed lb"
      by (auto simp: take_measurement_Returns)
    from "1.IH"(1) [OF False tm c1]
    have i1: "x = parallel_fib (n - 1)" "length (tbb lb2) = length (tbb lb1)"
      "allowed lb2 = allowed lb1" by simp_all
    from "1.IH"(2) [OF False tm c1 refl c2]
    have i2: "y = parallel_fib (n - 2)" "length (tbb lb') = length (tbb lb2)"
      "allowed lb' = allowed lb2" by simp_all
    from False r i1 i2 l1 show ?thesis
      by (simp add: parallel_fib_step)
  qed
qed

lemma parallel_fib_lb_total:
  "(\<And>q. 0 \<le> sched q \<and> sched q < int (length (tbb lb))) \<Longrightarrow>
     \<exists>lb'. parallel_fib_lb sched p n lb = Returns (parallel_fib n, lb')"
proof (induction sched p n lb rule: parallel_fib_lb.induct)
  case (1 sched p n lb)
  show ?case
  proof (cases "n < 2")
    case True
    then show ?thesis
      by (simp add: parallel_fib_lb_base parallel_fib_base)
  next
    case False
    define lb1 where "lb1 = lb\<lparr>tbb := (tbb lb)[nat (sched p) := tbb lb ! nat (sched p) + 1]\<rparr>"
    have tm: "take_measurement (sched p) lb = Returns lb1"
      unfolding lb1_def using "1.prems" [of p] by (intro take_measurement_valid) simp_all
    have len1: "length (tbb lb1) = length (tbb lb)"
      by (simp add: lb1_def)
    from "1.IH"(1) [OF False tm] "1.prems" len1
    obtain lb2 where c1: "parallel_fib_lb sched (p @ [False]) (n - 1) lb1 = Returns (parallel_fib (n - 1), lb2)"
      by auto
    from parallel_fib_lb_Returns [OF c1] len1
    have len2: "length (tbb lb2) = length (tbb lb)" by simp
    from "1.IH"(2) [OF False tm c1 refl] "1.prems" len2
    obtain lb3 where c2: "parallel_fib_lb sched (p @ [True]) (n - 2) lb2 = Returns (parallel_fib (n - 2), lb3)"
      by auto
    from False tm c1 c2 show ?thesis
      by (simp add: parallel_fib_lb_step parallel_fib_step)
  qed
qed

lemma parallel_fib_lb_sum:
  "0 \<le> n \<Longrightarrow> parallel_fib_lb sched p n lb = Returns (r, lb') \<Longrightarrow>
     sum_list (tbb lb') = sum_list (tbb lb) + (parallel_fib (n + 1) - 1)"
proof (induction sched p n lb arbitrary: r lb' rule: parallel_fib_lb.induct)
  case (1 sched p n lb)
  show ?case
  proof (cases "n < 2")
    case True
    with "1.prems"(1) have "n = 0 \<or> n = 1" by auto
    moreover from True "1.prems"(2) have "lb' = lb"
      by (simp add: parallel_fib_lb_base)
    ultimately show ?thesis
      by (auto simp: parallel_fib_base parallel_fib_step)
  next
    case False
    from "1.prems"(2) False obtain lb1 x lb2 y where
      tm: "take_measurement (sched p) lb = Returns lb1" and
      c1: "parallel_fib_lb sched (p @ [False]) (n - 1) lb1 = Returns (x, lb2)" and
      c2: "parallel_fib_lb sched (p @ [True]) (n - 2) lb2 = Returns (y, lb')"
      by (auto simp: parallel_fib_lb_step split: outcome.splits)
    from tm have s1: "sum_list (tbb lb1) = sum_list (tbb lb) + 1"
      by (auto simp: take_measurement_Returns sum_list_bump_word)
    from False have "0 \<le> n - 1" by simp
    from "1.IH"(1) [OF False tm this c1]
    have s2: "sum_list (tbb lb2) = sum_list (tbb lb1) + (parallel_fib n - 1)"
      by simp
    from False have "0 \<le> n - 2" by simp
    from "1.IH"(2) [OF False tm c1 refl this c2]
    have s3: "sum_list (tbb lb') = sum_list (tbb lb2) + (parallel_fib (n - 1) - 1)"
      by simp
    from False have c: "parallel_fib (n + 1) = parallel_fib n + parallel_fib (n - 1)"
      using parallel_fib_step [of "n + 1"] by simp
    show ?thesis
      unfolding s3 s2 s1 c by simp
  qed
qed

lemma sum_list_bump_nat:
  "i < length xs \<Longrightarrow> unat (xs ! i) + 1 < 2 ^ 64 \<Longrightarrow>
     sum_list (map unat (xs[i := xs ! i + (1 :: u64)])) = sum_list (map unat xs) + 1"
proof (induction xs arbitrary: i)
  case Nil
  then show ?case by simp
next
  case (Cons x xs)
  show ?case
  proof (cases i)
    case 0
    with Cons.prems have "unat x + unat (1 :: u64) < 2 ^ LENGTH(64)" by simp
    then have "unat (x + 1) = unat x + unat (1 :: u64)"
      by (simp only: unat_add_lem)
    with 0 show ?thesis by simp
  next
    case (Suc j)
    with Cons show ?thesis by simp
  qed
qed

lemma counter_le_total:
  "i < length (tbb lb) \<Longrightarrow> unat (tbb lb ! i) \<le> counter_total lb"
  unfolding counter_total_def
  using elem_le_sum_list [of i "map unat (tbb lb)"] by simp

lemma fib_std_count_step:
  "fib_std (Suc (Suc (Suc k))) - 1 = 1 + (fib_std (Suc (Suc k)) - 1) + (fib_std (Suc k) - 1)"
proof -
  have "0 < fib_std (Suc k)" by (rule fib_std_pos) simp
  then show ?thesis by simp
qed

lemma parallel_fib_lb_total_nat:
  "0 \<le> n \<Longrightarrow> parallel_fib_lb sched p n lb = Returns (r, lb') \<Longrightarrow>
     counter_total lb + (fib_std (nat n + 1) - 1) < 2 ^ 64 \<Longrightarrow>
     counter_total lb' = counter_total lb + (fib_std (nat n + 1) - 1)"
proof (induction sched p n lb arbitrary: r lb' rule: parallel_fib_lb.induct)
  case (1 sched p n lb)
  show ?case
  proof (cases "n < 2")
    case True
    with "1.prems"(1) have "n = 0 \<or> n = 1" by auto
    moreover from True "1.prems"(2) have "lb' = lb"
      by (simp add: parallel_fib_lb_base)
    ultimately show ?thesis
      by (auto simp: fib_std_small)
  next
    case False
    define k where "k = nat (n - 2)"
    from False have k: "nat n + 1 = Suc (Suc (Suc k))" "nat (n - 1) + 1 = Suc (Suc k)"
      "nat (n - 2) + 1 = Suc k"
      by (simp_all add: k_def nat_eq_iff)
    note cnt = fib_std_count_step [of k]
    from "1.prems"(2) False obtain lb1 x lb2 y where
      tm: "take_measurement (sched p) lb = Returns lb1" and
      c1: "parallel_fib_lb sched (p @ [False]) (n - 1) lb1 = Returns (x, lb2)" and
      c2: "parallel_fib_lb sched (p @ [True]) (n - 2) lb2 = Returns (y, lb')"
      by (auto simp: parallel_fib_lb_step split: outcome.splits)
    from "1.prems"(3) have bound: "counter_total lb + (fib_std (Suc (Suc (Suc k))) - 1) < 2 ^ 64"
      unfolding k .
    from tm have idx: "nat (sched p) < length (tbb lb)"
      and lb1: "lb1 = lb\<lparr>tbb := (tbb lb)[nat (sched p) := tbb lb ! nat (sched p) + 1]\<rparr>"
      by (auto simp: take_measurement_Returns)
    from counter_le_total [OF idx] bound cnt
    have "unat (tbb lb ! nat (sched p)) + 1 < 2 ^ 64" by linarith
    with idx have t1: "counter_total lb1 = counter_total lb + 1"
      unfolding lb1 counter_total_def by (simp add: sum_list_bump_nat)
    from False have n1: "0 \<le> n - 1" by simp
    have b1: "counter_total lb1 + (fib_std (nat (n - 1) + 1) - 1) < 2 ^ 64"
      unfolding k t1 using bound cnt by linarith
    from "1.IH"(1) [OF False tm n1 c1 b1]
    have t2: "counter_total lb2 = counter_total lb1 + (fib_std (Suc (Suc k)) - 1)"
      unfolding k .
    from False have n2: "0 \<le> n - 2" by simp
    have b2: "counter_total lb2 + (fib_std (nat (n - 2) + 1) - 1) < 2 ^ 64"
      unfolding k t2 t1 using bound cnt by linarith
    from "1.IH"(2) [OF False tm c1 refl n2 c2 b2]
    have t3: "counter_total lb' = counter_total lb2 + (fib_std (Suc k) - 1)"
      unfolding k .
    show ?thesis
      unfolding k t3 t2 t1 using cnt by linarith
  qed
qed

lemma new_load_balance_fresh:
  "sum_list (tbb (new_load_balance a slots)) = 0"
  "counter_total (new_load_balance a slots) = 0"
  "length (tbb (new_load_balance a slots)) = nat slots"
  by (simp_all add: new_load_balance_def counter_total_def sum_list_replicate)

lemma run_slot0_2:
  "parallel_fib_lb sched_slot0 [] 2 (new_load_balance 4 4) =
     Returns (1, \<lparr>allowed = 4, tbb = [1, 0, 0, 0]\<rparr>)"
  by (simp add: parallel_fib_lb_step parallel_fib_lb_base take_measurement_def
      new_load_balance_def sched_slot0_def eval_nat_numeral)

lemma fib_std_6: "fib_std 6 = 8"
  using fib_std_from3 [of 3] by (simp add: fib_acc_numeral)

lemma parallel_fib_5: "parallel_fib 5 = 5"
  using parallel_fib_word [of 5] fib_std_from3 [of 2] by (simp add: fib_acc_numeral)

lemma parallel_fib_6: "parallel_fib 6 = 8"
  using parallel_fib_word [of 6] by (simp add: fib_std_6)

text \<open>
  Claim C1, as stated, fails at \<open>n = 2\<close>: the run makes one invocation with
  \<open>n \<ge> 2\<close> and records one increment, while \<^verbatim>\<open>threads_created(2)\<close> is 2. The job
  count adds 2 for every such invocation, the tracker adds 1.
\<close>

theorem counter_sum_not_threads_created:
  "parallel_fib_lb sched_slot0 [] 2 (new_load_balance 4 4) =
     Returns (1, \<lparr>allowed = 4, tbb = [1, 0, 0, 0]\<rparr>) \<and>
   counter_total \<lparr>allowed = 4, tbb = [1, 0, 0, 0]\<rparr> = 1 \<and>
   unat (threads_created 2) = 2"
  by (simp add: run_slot0_2 counter_total_def threads_created_2)

text \<open>
  Claim C1, amended. For every \<open>n \<ge> 0\<close> and every schedule with slot indices inside
  the tracker, the instrumented run on a fresh zero-initialised tracker completes, with
  one increment per invocation with \<open>n \<ge> 2\<close>: the sum of the slot counters is
  \<open>parallel_fib (n + 1) - 1\<close>, half of \<^verbatim>\<open>threads_created(n)\<close>, in \<^verbatim>\<open>u64\<close> arithmetic.
  Up to \<open>n = 92\<close> no counter wraps and the sum, as a natural number, is the Fibonacci
  number of \<open>n + 1\<close> less one; up to \<open>n = 91\<close> twice the sum is the job count.
\<close>

theorem load_balance_counter_sum:
  assumes "0 \<le> n" and "\<forall>q. 0 \<le> sched q \<and> sched q < slots"
  shows "\<exists>lb'. parallel_fib_lb sched p n (new_load_balance a slots) = Returns (parallel_fib n, lb') \<and>
           sum_list (tbb lb') = parallel_fib (n + 1) - 1 \<and>
           2 * sum_list (tbb lb') = threads_created n \<and>
           (n \<le> 92 \<longrightarrow> counter_total lb' = fib_std (nat n + 1) - 1) \<and>
           (n \<le> 91 \<longrightarrow> 2 * counter_total lb' = unat (threads_created n))"
proof -
  let ?lb = "new_load_balance a slots"
  from assms(2) have "0 \<le> slots"
    by (meson order_less_imp_le order_trans)
  with assms(2) have "\<And>q. 0 \<le> sched q \<and> sched q < int (length (tbb ?lb))"
    by (simp add: new_load_balance_fresh)
  from parallel_fib_lb_total [of sched ?lb p n, OF this]
  obtain lb' where run: "parallel_fib_lb sched p n ?lb = Returns (parallel_fib n, lb')"
    by blast
  from parallel_fib_lb_sum [OF assms(1) run]
  have s: "sum_list (tbb lb') = parallel_fib (n + 1) - 1"
    by (simp add: new_load_balance_fresh)
  have d: "2 * sum_list (tbb lb') = threads_created n"
    unfolding s using assms(1) by (simp add: threads_created_fib)
  have t: "counter_total lb' = fib_std (nat n + 1) - 1" if "n \<le> 92"
  proof -
    have "fib_std (nat n + 1) \<le> fib_std 93"
      using assms(1) that by (intro fib_std_mono) simp
    then have "counter_total ?lb + (fib_std (nat n + 1) - 1) < 2 ^ 64"
      by (simp add: new_load_balance_fresh fib_std_93)
    from parallel_fib_lb_total_nat [OF assms(1) run this] show ?thesis
      by (simp add: new_load_balance_fresh)
  qed
  have u: "2 * counter_total lb' = unat (threads_created n)" if "n \<le> 91"
    using t that assms(1) by (simp add: threads_created_unat)
  from run s d t u show ?thesis
    by blast
qed

theorem load_balance_counter_sum_witness:
  "\<exists>lb'. parallel_fib_lb sched_slot0 [] 5 (new_load_balance 4 4) = Returns (5, lb') \<and>
     sum_list (tbb lb') = 7 \<and> counter_total lb' = 7 \<and> unat (threads_created 5) = 14"
proof -
  have h1: "(0::int) \<le> 5"
    by simp
  have h2: "\<forall>q. 0 \<le> sched_slot0 q \<and> sched_slot0 q < 4"
    by (simp add: sched_slot0_def)
  from load_balance_counter_sum [OF h1 h2, of "[]" 4]
  obtain lb' where
    run: "parallel_fib_lb sched_slot0 [] 5 (new_load_balance 4 4) = Returns (parallel_fib 5, lb')" and
    s: "sum_list (tbb lb') = parallel_fib (5 + 1) - 1" and
    t: "counter_total lb' = fib_std (nat 5 + 1) - 1" and
    u: "2 * counter_total lb' = unat (threads_created 5)"
    by auto
  have "(nat 5 + 1 :: nat) = 6"
    by simp
  with t have t7: "counter_total lb' = 7"
    by (simp add: fib_std_6)
  from s have s7: "sum_list (tbb lb') = 7"
    by (simp add: parallel_fib_6)
  from u t7 have "unat (threads_created 5) = 14"
    by simp
  with run s7 t7 show ?thesis
    by (auto simp: parallel_fib_5)
qed

text \<open>
  Claim C9. Whatever the schedule and the tracker, an instrumented run that returns,
  returns the value of \<^verbatim>\<open>parallel_fib(n)\<close>; it never ends the process; and it does
  return when the slot indices lie inside the tracker, as they do for a tracker
  with \<^verbatim>\<open>max_concurrency()\<close> slots.
\<close>

theorem parallel_fib_lb_same_value:
  "(parallel_fib_lb sched p n lb = Returns (r, lb') \<longrightarrow> r = parallel_fib n) \<and>
   parallel_fib_lb sched p n lb \<noteq> Dies msg \<and>
   ((\<forall>q. 0 \<le> sched q \<and> sched q < int (length (tbb lb))) \<longrightarrow>
      (\<exists>lb2. parallel_fib_lb sched p n lb = Returns (parallel_fib n, lb2)))"
proof (intro conjI impI)
  assume "parallel_fib_lb sched p n lb = Returns (r, lb')"
  then show "r = parallel_fib n"
    by (simp add: parallel_fib_lb_Returns)
next
  show "parallel_fib_lb sched p n lb \<noteq> Dies msg"
    by (rule parallel_fib_lb_not_Dies)
next
  assume "\<forall>q. 0 \<le> sched q \<and> sched q < int (length (tbb lb))"
  then show "\<exists>lb2. parallel_fib_lb sched p n lb = Returns (parallel_fib n, lb2)"
    by (intro parallel_fib_lb_total) simp
qed

theorem parallel_fib_lb_same_value_witness:
  "parallel_fib_lb sched_slot0 [] 2 (new_load_balance 4 4) =
     Returns (1, \<lparr>allowed = 4, tbb = [1, 0, 0, 0]\<rparr>) \<and>
   1 = parallel_fib 2 \<and>
   (\<exists>lb2. parallel_fib_lb sched_slot0 [] 2 (new_load_balance 4 4) = Returns (parallel_fib 2, lb2))"
proof -
  note inst = parallel_fib_lb_same_value
    [of sched_slot0 "[]" 2 "new_load_balance 4 4" 1 "\<lparr>allowed = 4, tbb = [1, 0, 0, 0]\<rparr>" "[]"]
  have a: "1 = parallel_fib 2"
    using inst run_slot0_2 by blast
  have "\<forall>q. 0 \<le> sched_slot0 q \<and> sched_slot0 q < int (length (tbb (new_load_balance 4 4)))"
    by (simp add: sched_slot0_def new_load_balance_fresh)
  with inst have b: "\<exists>lb2. parallel_fib_lb sched_slot0 [] 2 (new_load_balance 4 4) =
      Returns (parallel_fib 2, lb2)"
    by blast
  from run_slot0_2 a b show ?thesis
    by blast
qed

section \<open>The pinning observer\<close>

lemma on_scheduler_entry_ok:
  "nprocs po \<noteq> 0 \<Longrightarrow>
     on_scheduler_entry True po =
       Returns (unat (counter po mod nprocs po), po\<lparr>counter := counter po + 1\<rparr>)"
  by (simp add: on_scheduler_entry_def Let_def)

lemma after_joins_counter:
  "nprocs po \<noteq> 0 \<Longrightarrow>
     after_joins k po = Returns (po\<lparr>counter := counter po + word_of_nat k\<rparr>)"
proof (induction k)
  case 0
  show ?case by simp
next
  case (Suc k)
  then show ?case
    by (simp add: on_scheduler_entry_ok add.assoc)
qed

lemma kth_join_unit_counter:
  "nprocs po \<noteq> 0 \<Longrightarrow>
     kth_join_unit k po = Returns (unat ((counter po + word_of_nat k) mod nprocs po))"
  by (simp add: kth_join_unit_def after_joins_counter on_scheduler_entry_ok)

lemma kth_join_unit_new:
  assumes "U \<noteq> 0"
  shows "kth_join_unit k (new_pinning_observer U) = Returns ((k mod 2 ^ 32) mod unat U)"
proof -
  have "kth_join_unit k (new_pinning_observer U) = Returns (unat ((word_of_nat k :: u32) mod U))"
    using assms by (simp add: kth_join_unit_counter new_pinning_observer_def)
  also have "unat ((word_of_nat k :: u32) mod U) = (k mod 2 ^ 32) mod unat U"
    by (simp add: unat_mod unat_of_nat)
  finally show ?thesis .
qed

lemma kth_join_unit_wrap: "kth_join_unit 4294967296 (new_pinning_observer 3) = Returns 0"
  using kth_join_unit_new [of 3 4294967296] by simp

text \<open>
  Claim C8, as stated, fails at join event \<open>k = 2 ^ 32\<close> with 3 hardware units: the
  counter is a 32-bit \<^verbatim>\<open>unsigned\<close> that has wrapped to 0, so the unit is 0, while
  \<open>2 ^ 32 mod 3 = 1\<close>.
\<close>

theorem round_robin_wraps:
  "kth_join_unit 4294967296 (new_pinning_observer 3) = Returns 0 \<and>
   (4294967296 :: nat) mod unat (3 :: u32) = 1"
  by (simp add: kth_join_unit_wrap)

text \<open>
  Claim C8, amended. With \<open>U > 0\<close> hardware units, join event \<open>k\<close> (counted
  from 0) is given unit \<open>(k mod 2 ^ 32) mod U\<close>, which is \<open>k mod U\<close> for
  \<open>k < 2 ^ 32\<close>; the one shared counter is incremented once per join, so after
  \<open>k\<close> joins it holds \<open>k\<close> modulo \<open>2 ^ 32\<close>.
\<close>

theorem round_robin_affinity:
  "U \<noteq> 0 \<Longrightarrow>
     kth_join_unit k (new_pinning_observer U) = Returns ((k mod 2 ^ 32) mod unat U) \<and>
     (k < 2 ^ 32 \<longrightarrow> kth_join_unit k (new_pinning_observer U) = Returns (k mod unat U)) \<and>
     after_joins k (new_pinning_observer U) = Returns \<lparr>nprocs = U, counter = word_of_nat k\<rparr>"
proof (intro conjI impI)
  assume U: "U \<noteq> 0"
  show eq: "kth_join_unit k (new_pinning_observer U) = Returns ((k mod 2 ^ 32) mod unat U)"
    using U by (rule kth_join_unit_new)
  show "after_joins k (new_pinning_observer U) = Returns \<lparr>nprocs = U, counter = word_of_nat k\<rparr>"
    using U by (simp add: after_joins_counter new_pinning_observer_def)
  assume "k < 2 ^ 32"
  then show "kth_join_unit k (new_pinning_observer U) = Returns (k mod unat U)"
    unfolding eq by simp
qed

theorem round_robin_affinity_witness:
  "kth_join_unit 5 (new_pinning_observer 4) = Returns 1 \<and>
   after_joins 5 (new_pinning_observer 4) = Returns \<lparr>nprocs = 4, counter = 5\<rparr>"
proof -
  have "(4 :: u32) \<noteq> 0" by simp
  from round_robin_affinity [OF this, of 5] show ?thesis
    by simp
qed

section \<open>Statistics of the tracker\<close>

text \<open>Casts between the 32-bit accumulator and \<^verbatim>\<open>u64\<close>.\<close>

lemma ucast_scast_id: "(ucast (scast a :: u64) :: u32) = a"
  by (rule bit_word_eqI) (auto simp: bit_simps)

lemma ucast_down_add: "(ucast (p + q :: u64) :: u32) = ucast p + ucast q"
proof -
  have "(2::int) ^ 32 dvd 2 ^ 64"
    by (rule le_imp_power_dvd) simp
  then have trunc: "take_bit 32 ((uint p + uint q) mod 2 ^ 64) = take_bit 32 (uint p + uint q)"
    by (simp only: take_bit_eq_mod mod_mod_cancel)
  have "(ucast (p + q) :: u32) = word_of_int (uint (p + q))"
    by (simp only: of_int_uint)
  also have "\<dots> = word_of_int ((uint p + uint q) mod 2 ^ 64)"
    by (simp only: uint_word_ariths) simp
  also have "\<dots> = (word_of_int (uint p + uint q) :: u32)"
    using trunc by (simp only: word_of_int_eq_iff) simp
  also have "\<dots> = word_of_int (uint p) + word_of_int (uint q)"
    by (simp only: of_int_add)
  also have "\<dots> = ucast p + ucast q"
    by (simp only: of_int_uint)
  finally show ?thesis .
qed

lemma accumulate_fold:
  "foldl (\<lambda>acc x. ucast ((scast acc :: u64) + x)) (a :: i32) v = a + ucast (sum_list v)"
proof (induction v arbitrary: a)
  case Nil
  show ?case by simp
next
  case (Cons x v)
  let ?f = "\<lambda>acc x. ucast ((scast acc :: u64) + x) :: i32"
  have "foldl ?f a (x # v) = foldl ?f (ucast ((scast a :: u64) + x)) v"
    by simp
  also have "\<dots> = ucast ((scast a :: u64) + x) + ucast (sum_list v)"
    by (rule Cons.IH)
  also have "\<dots> = a + ucast (sum_list (x # v))"
    by (simp add: ucast_down_add ucast_scast_id add.assoc)
  finally show ?case .
qed

lemma accumulate_int_sum: "accumulate_int v = ucast (sum_list v)"
  by (simp add: accumulate_int_def accumulate_fold)

lemma unat_sum_list: "unat (sum_list v :: u64) = sum_list (map unat v) mod 2 ^ 64"
proof (induction v)
  case Nil
  show ?case by simp
next
  case (Cons x v)
  have "unat (x + sum_list v) = (unat x + unat (sum_list v)) mod 2 ^ 64"
    by (simp add: unat_word_ariths)
  also have "\<dots> = (unat x + sum_list (map unat v)) mod 2 ^ 64"
    unfolding Cons.IH by (simp add: mod_add_right_eq)
  finally show ?case by simp
qed

lemma accumulate_int_small:
  assumes "sum_list (map unat v) < 2 ^ 31"
  shows "sint (accumulate_int v) = int (sum_list (map unat v))"
proof -
  let ?t = "sum_list (map unat v)"
  from assms have u: "unat (sum_list v) = ?t"
    by (simp add: unat_sum_list)
  have "uint (sum_list v) = int (unat (sum_list v))"
    by (rule uint_nat)
  also have "\<dots> = int ?t"
    by (simp only: u)
  finally have ui: "uint (sum_list v) = int ?t" .
  have "accumulate_int v = word_of_int (uint (sum_list v))"
    unfolding accumulate_int_sum by (simp only: of_int_uint)
  then have "accumulate_int v = word_of_int (int ?t)"
    by (simp only: ui)
  then have "sint (accumulate_int v) = signed_take_bit 31 (int ?t)"
    by (simp add: signed_of_nat)
  also have "\<dots> = int ?t"
    using assms by (simp add: signed_take_bit_int_eq_self)
  finally show ?thesis .
qed

lemma min_element_Min: "v \<noteq> [] \<Longrightarrow> min_element v = Some (Min (set v))"
proof (cases v)
  case Nil
  assume "v \<noteq> []"
  with Nil show ?thesis by simp
next
  case (Cons x xs)
  have "(\<lambda>y smallest. if y < smallest then y else smallest) = (min :: u64 \<Rightarrow> u64 \<Rightarrow> u64)"
    by (intro ext) (auto simp: min_def)
  then have "foldl (\<lambda>smallest y. if y < smallest then y else smallest) x xs = fold min xs x"
    by (simp add: foldl_conv_fold)
  with Cons show ?thesis
    using Min.set_eq_fold [of x xs] by simp
qed

lemma max_element_Max: "v \<noteq> [] \<Longrightarrow> max_element v = Some (Max (set v))"
proof (cases v)
  case Nil
  assume "v \<noteq> []"
  with Nil show ?thesis by simp
next
  case (Cons x xs)
  have "(\<lambda>y largest. if largest < y then y else largest) = (max :: u64 \<Rightarrow> u64 \<Rightarrow> u64)"
    by (intro ext) (auto simp: max_def)
  then have "foldl (\<lambda>largest y. if largest < y then y else largest) x xs = fold max xs x"
    by (simp add: foldl_conv_fold)
  with Cons show ?thesis
    using Max.set_eq_fold [of x xs] by simp
qed

lemma calc_statistics_nonempty:
  "v \<noteq> [] \<Longrightarrow>
     calc_statistics v =
       Returns \<lparr>min_stat = Min (set v), max_stat = Max (set v),
                avg = real_of_int (sint (accumulate_int v)) / real (length v),
                dev = sqrt (foldl (dev_lambda (real_of_int (sint (accumulate_int v)) / real (length v))) 0 v
                        / real (length v))\<rparr>"
  by (simp add: calc_statistics_def min_element_Min max_element_Max Let_def)

lemma calc_statistics_empty: "calc_statistics [] = Undefined"
  by (simp add: calc_statistics_def)

lemma foldl_dev_lambda:
  "foldl (dev_lambda a) acc v = acc + (\<Sum>x\<leftarrow>v. (real (unat x) - a)\<^sup>2)"
  by (induction v arbitrary: acc) (simp_all add: dev_lambda_def Let_def power2_eq_square)

lemma foldl_dev_lambda_pad:
  "foldl (dev_lambda a) acc (v @ replicate k 0) = foldl (dev_lambda a) acc v + real k * (a * a)"
  by (simp add: foldl_dev_lambda sum_list_replicate power2_eq_square)

lemma accumulate_int_pad: "accumulate_int (v @ replicate k 0) = accumulate_int v"
  by (simp add: accumulate_int_sum sum_list_replicate)

lemma remove_copy_no_zero: "0 \<notin> set (remove_copy xs 0)"
  by (simp add: remove_copy_def)

lemma lb_sample_eq:
  "lb_sample lb =
     remove_copy (tbb lb) 0 @
     replicate (nat (allowed lb - int (length (remove_copy (tbb lb) 0)))) 0"
  by (simp add: lb_sample_def fill_n_def Let_def)

lemma length_lb_sample:
  "length (lb_sample lb) = max (length (remove_copy (tbb lb) 0)) (nat (allowed lb))"
  by (simp add: lb_sample_eq)

lemma sqrt_2_pow_62: "sqrt 4611686018427387904 = 2147483648"
proof -
  have "sqrt (2147483648 * 2147483648) = \<bar>2147483648\<bar>"
    by (rule real_sqrt_abs2)
  then show ?thesis by simp
qed

text \<open>
  Claim C4 against the code. The sum is accumulated in an \<^verbatim>\<open>int\<close>: for the sample of two
  counters \<open>2 ^ 30\<close>, with sum \<open>2 ^ 31\<close>, the accumulator ends at \<open>- 2 ^ 31\<close>, the
  average returned is \<open>- 2 ^ 30\<close> instead of \<open>2 ^ 30\<close>, and the deviation of this
  all-equal sample is \<open>2 ^ 31\<close> instead of 0. Every value of this run is a whole number a
  \<^verbatim>\<open>double\<close> holds exactly.
\<close>

theorem calc_statistics_int_accumulator:
  "calc_statistics [1073741824, 1073741824] =
     Returns \<lparr>min_stat = 1073741824, max_stat = 1073741824,
              avg = - 1073741824, dev = 2147483648\<rparr>"
  by (simp add: calc_statistics_def accumulate_int_def dev_lambda_def Let_def sqrt_2_pow_62)

text \<open>
  Where the counters sum to less than \<open>2 ^ 31\<close> the accumulator holds the sum, and the
  statistics of a non-empty sample are the minimum, the maximum, the mean and the
  population standard deviation.
\<close>

lemma calc_statistics_small:
  assumes "v \<noteq> []" and "sum_list (map unat v) < 2 ^ 31"
  shows "calc_statistics v =
     Returns \<lparr>min_stat = Min (set v), max_stat = Max (set v),
              avg = real (sum_list (map unat v)) / real (length v),
              dev = sqrt ((\<Sum>x\<leftarrow>v. (real (unat x) - real (sum_list (map unat v)) / real (length v))\<^sup>2)
                      / real (length v))\<rparr>"
  using assms by (simp add: calc_statistics_nonempty accumulate_int_small foldl_dev_lambda)

lemma calc_statistics_small_witness:
  "calc_statistics [1, 2, 3, 4, 5] =
     Returns \<lparr>min_stat = 1, max_stat = 5, avg = 3, dev = sqrt 2\<rparr>"
proof -
  have "[1, 2, 3, 4, 5 :: u64] \<noteq> []" and "sum_list (map unat [1, 2, 3, 4, 5 :: u64]) < 2 ^ 31"
    by simp_all
  from calc_statistics_small [OF this] show ?thesis
    by (simp add: power2_eq_square)
qed

text \<open>
  Claim C6, as stated, fails: on the empty sample \<^verbatim>\<open>calc_statistics\<close> reports nothing, it
  dereferences the end iterator. The empty sample is what \<^verbatim>\<open>operator<<\<close> builds from a
  tracker without a measurement whose \<^verbatim>\<open>allowed\<close> is not positive, such as the tracker
  of the record \<^verbatim>\<open>1 4294967295\<close>, where \<^verbatim>\<open>allowed\<close> is the \<^verbatim>\<open>unsigned\<close> worker
  count converted to \<^verbatim>\<open>int\<close>.
\<close>

theorem calc_statistics_empty_no_error:
  "calc_statistics [] = Undefined \<and>
   print_load_balance \<lparr>allowed = - 1, tbb = [0, 0, 0, 0]\<rparr> = Undefined"
  by (simp add: calc_statistics_empty print_load_balance_def lb_sample_eq remove_copy_def)

text \<open>
  Claim C6, amended. \<^verbatim>\<open>calc_statistics\<close> has no check of its sample and never reports
  an error: its behaviour is undefined exactly on the empty sample, and on every other
  sample it returns.
\<close>

theorem calc_statistics_defined_iff:
  "(calc_statistics v = Undefined \<longleftrightarrow> v = []) \<and> calc_statistics v \<noteq> Dies msg"
  by (cases "v = []") (simp_all add: calc_statistics_empty calc_statistics_nonempty)

text \<open>
  Claim C5, as stated, fails for a tracker with one used slot of four allowed: one counter
  is left after the zeros are removed, the sample is padded to length 4, and the mean is
  the sum over 4, not over 1.
\<close>

theorem statistics_over_padded_length:
  "remove_copy (tbb \<lparr>allowed = 4, tbb = [2, 0, 0, 0]\<rparr>) 0 = [2] \<and>
   lb_sample \<lparr>allowed = 4, tbb = [2, 0, 0, 0]\<rparr> = [2, 0, 0, 0] \<and>
   calc_statistics (lb_sample \<lparr>allowed = 4, tbb = [2, 0, 0, 0]\<rparr>) =
     Returns \<lparr>min_stat = 0, max_stat = 2, avg = 2 / 4, dev = sqrt (3 / 4)\<rparr> \<and>
   (2 / 4 :: real) \<noteq> 2 / 1"
proof -
  have s: "lb_sample \<lparr>allowed = 4, tbb = [2, 0, 0, 0]\<rparr> = [2, 0, 0, 0]"
    by (simp add: lb_sample_eq remove_copy_def eval_nat_numeral)
  have "calc_statistics [2, 0, 0, 0] =
      Returns \<lparr>min_stat = 0, max_stat = 2, avg = 2 / 4, dev = sqrt (3 / 4)\<rparr>"
    by (simp add: calc_statistics_def accumulate_int_def dev_lambda_def Let_def)
  then show ?thesis
    by (simp add: s remove_copy_def)
qed

lemma pad_count: "nat (a - int m) = max m (nat a) - m"
proof (cases "m \<le> nat a")
  case True
  then have "max m (nat a) = nat a" by simp
  moreover from True have "nat (a - int m) = nat a - m" by linarith
  ultimately show ?thesis by simp
next
  case False
  then have "max m (nat a) = m" by simp
  moreover from False have "nat (a - int m) = 0" by linarith
  ultimately show ?thesis by simp
qed

text \<open>
  Claim C5, amended. The sample is the non-zero counters \<open>nz\<close> in slot order, followed
  by zeros up to the length \<open>c\<close>, the larger of \<^verbatim>\<open>allowed\<close> and the number of non-zero
  counters. The mean and the deviation are computed over the padded length \<open>c\<close>: the
  mean is the accumulated sum of \<open>nz\<close> over \<open>c\<close>, and every padding zero adds the
  squared mean to the sum of squared differences, which is divided by \<open>c\<close>.
\<close>

theorem lb_sample_statistics:
  assumes "nz = remove_copy (tbb lb) 0"
    and "c = max (length nz) (nat (allowed lb))"
    and "a = real_of_int (sint (accumulate_int nz)) / real c"
  shows "0 \<notin> set nz \<and>
         lb_sample lb = nz @ replicate (c - length nz) 0 \<and>
         length (lb_sample lb) = c \<and>
         (0 < c \<longrightarrow>
            calc_statistics (lb_sample lb) =
              Returns \<lparr>min_stat = Min (set (lb_sample lb)), max_stat = Max (set (lb_sample lb)),
                       avg = a,
                       dev = sqrt ((foldl (dev_lambda a) 0 nz + real (c - length nz) * (a * a)) / real c)\<rparr>)"
proof (intro conjI impI)
  show "0 \<notin> set nz"
    unfolding assms(1) by (rule remove_copy_no_zero)
  show len: "length (lb_sample lb) = c"
    unfolding assms by (rule length_lb_sample)
  show eq: "lb_sample lb = nz @ replicate (c - length nz) 0"
    unfolding assms
    by (subst lb_sample_eq) (simp only: pad_count)
  assume "0 < c"
  with len have ne: "lb_sample lb \<noteq> []"
    by auto
  have acc: "accumulate_int (lb_sample lb) = accumulate_int nz"
    by (subst eq) (rule accumulate_int_pad)
  have fl: "foldl (dev_lambda a) 0 (lb_sample lb) =
      foldl (dev_lambda a) 0 nz + real (c - length nz) * (a * a)"
    by (subst eq) (rule foldl_dev_lambda_pad)
  show "calc_statistics (lb_sample lb) =
      Returns \<lparr>min_stat = Min (set (lb_sample lb)), max_stat = Max (set (lb_sample lb)),
               avg = a,
               dev = sqrt ((foldl (dev_lambda a) 0 nz + real (c - length nz) * (a * a)) / real c)\<rparr>"
    unfolding calc_statistics_nonempty [OF ne] acc len assms(3) [symmetric] fl ..
qed

theorem lb_sample_statistics_witness:
  "0 \<notin> set [2 :: u64] \<and>
   lb_sample \<lparr>allowed = 4, tbb = [2, 0, 0, 0]\<rparr> = [2] @ [0, 0, 0] \<and>
   length (lb_sample \<lparr>allowed = 4, tbb = [2, 0, 0, 0]\<rparr>) = 4 \<and>
   calc_statistics (lb_sample \<lparr>allowed = 4, tbb = [2, 0, 0, 0]\<rparr>) =
     Returns \<lparr>min_stat = 0, max_stat = 2, avg = 1 / 2, dev = sqrt (3 / 4)\<rparr>"
proof -
  let ?lb = "\<lparr>allowed = 4, tbb = [2, 0, 0, 0]\<rparr>"
  have nz: "[2] = remove_copy (tbb ?lb) 0"
    by (simp add: remove_copy_def)
  have c: "(4 :: nat) = max (length [2 :: u64]) (nat (allowed ?lb))"
    by simp
  have a: "(1 / 2 :: real) = real_of_int (sint (accumulate_int [2])) / real 4"
    by (simp add: accumulate_int_def)
  have s: "lb_sample ?lb = [2, 0, 0, 0]"
    by (simp add: lb_sample_eq remove_copy_def eval_nat_numeral)
  have m: "Min (set [2, 0, 0, 0 :: u64]) = 0" "Max (set [2, 0, 0, 0 :: u64]) = 2"
    by simp_all
  have d: "(foldl (dev_lambda (1 / 2)) 0 [2] + real (4 - length [2 :: u64]) * (1 / 2 * (1 / 2))) / real 4
      = 3 / 4"
    by (simp add: dev_lambda_def Let_def)
  have r: "replicate (4 - length [2 :: u64]) (0 :: u64) = [0, 0, 0]"
    by (simp add: eval_nat_numeral)
  have "(0 :: nat) < 4"
    by simp
  with lb_sample_statistics [OF nz c a] show ?thesis
    unfolding d r unfolding s m by simp
qed

section \<open>The read loops\<close>

lemma fib_read_loop_append:
  "fib_read_loop tests (xs @ ys) = fib_read_loop tests xs @ fib_read_loop tests ys"
  by (induction xs) auto

lemma noploop_read_loop_append:
  "noploop_read_loop count (xs @ ys) = noploop_read_loop count xs @ noploop_read_loop count ys"
  by (induction xs) auto

text \<open>
  Claim C7 against the code. The read loop of recursive-fib.cpp has no check of the worker
  count: the record \<^verbatim>\<open>10 1\<close> is run and its line written like the line of the record
  \<^verbatim>\<open>10 4\<close> after it, and nothing is reported.
\<close>

theorem fib_read_loop_no_thread_check:
  "fib_read_loop 1 [(10, 1), (10, 4)] =
     [Line \<lparr>line_n = 10, line_fib = 55, line_nthread = 1, line_jobs = 176\<rparr>,
      Line \<lparr>line_n = 10, line_fib = 55, line_nthread = 4, line_jobs = 176\<rparr>]"
  by (simp add: parallel_fib_10 threads_created_10)

text \<open>The loop of recursive-fib.cpp reports no record and skips none.\<close>

lemma fib_read_loop_never_reports:
  "Diag msg \<notin> set (fib_read_loop tests records) \<and>
   length (fib_read_loop tests records) = nat tests * length records"
  by (induction records) auto

text \<open>
  The read loop of noploop.cpp does what claim C7 says: a record with fewer than two
  threads is reported and skipped, and the records after it are processed.
\<close>

lemma noploop_read_loop_skips:
  "threads < 2 \<Longrightarrow>
     noploop_read_loop count (before @ (method, threads, iterations) # rest) =
       noploop_read_loop count before @ Diag ''Threads must be < 2'' # noploop_read_loop count rest"
  by (simp add: noploop_read_loop_append)

lemma noploop_read_loop_skips_witness:
  "noploop_read_loop 1 [(1, 1, 100), (1, 4, 100)] =
     [Diag ''Threads must be < 2'',
      Line \<lparr>line_method = 1, line_threads = 4, line_iterations = 100\<rparr>]"
proof -
  have "(1 :: int) < 2" by simp
  from noploop_read_loop_skips [OF this, of 1 "[]" 1 100 "[(1, 4, 100)]"] show ?thesis
    by simp
qed

end
